theory Spec2Isabelle
  imports Complex_Main "HOL-Library.Multiset"
begin

section \<open>Compressed-sensing path planner of nOmicron\<close>

text \<open>
  A shallow embedding of \<^verbatim>\<open>compressedSensing\<close> in
  \<^verbatim>\<open>nOmicron/microscope/continuous_spectroscopy.py\<close> (lines 326 to 447) and of the two
  functions nested in it, \<^verbatim>\<open>nn_tsp_matrix\<close> and \<^verbatim>\<open>tour_length\<close>.

  Conventions of the embedding:
  \<^item> floating-point numbers are real numbers. Rounding is modelled where it decides a
    count or an error: the double product \<^verbatim>\<open>p*len(flat_input)\<close> is rounded to the nearest
    double, \<^verbatim>\<open>np.sum\<close> overflows, and a normalised weight underflows to zero. Elsewhere
    (the normalised weights that are not zero, the coordinates, the distances) the exact
    value stands for the double; on the concrete inputs used below the doubles of the
    code give the same values;
  \<^item> a raised exception is the left summand of the result;
  \<^item> the outcome of \<^verbatim>\<open>np.random.choice\<close> is an argument \<open>draw\<close> of the model (the positions
    the generator picked), so that a statement "for every sampling outcome" quantifies
    over \<open>draw\<close>;
  \<^item> the optional plot written to \<^verbatim>\<open>display_filepath\<close> is an effect outside the returned
    values and is left out.
\<close>

subsection \<open>Data\<close>

datatype error =
    Exception string  \<comment> \<open>\<^verbatim>\<open>raise Exception("...")\<close>, the three validation errors\<close>
  | ValueError        \<comment> \<open>raised by \<^verbatim>\<open>np.random.choice\<close>\<close>
  | ZeroDivisionError \<comment> \<open>Python's \<^verbatim>\<open>2/0\<close>\<close>
  | IndexError        \<comment> \<open>an array index out of bounds\<close>

text \<open>A numpy array of reals: its shape and its elements in row-major order.\<close>

record ndarray =
  shape :: "nat list"
  flatten :: "real list"

type_synonym coord = "real \<times> real"

text \<open>An entry of the distance matrix: a finite distance or \<^verbatim>\<open>np.inf\<close>.\<close>

datatype ext = Fin real | PInf

fun ext_less :: "ext \<Rightarrow> ext \<Rightarrow> bool" where
  "ext_less (Fin a) (Fin b) = (a < b)"
| "ext_less (Fin a) PInf = True"
| "ext_less PInf b = False"

subsection \<open>Library functions the code calls\<close>

text \<open>
  Rounding of a real number to the nearest double, ties to even: \<open>e\<close> is the exponent
  of \<open>x\<close> (at least -1022, below which doubles are subnormal), \<open>u\<close> the distance between
  neighbouring doubles there, and \<open>x\<close> is rounded to a multiple of \<open>u\<close>. The exponent is
  not bounded above: the only value rounded is \<^verbatim>\<open>p*len(flat_input)\<close> with \<open>p \<le> 1\<close>, which
  never exceeds the length of an array. The length itself is below \<open>2\<^sup>5\<^sup>3\<close> and converts
  to a double exactly.
\<close>

definition round_half_even :: "real \<Rightarrow> int" where
  "round_half_even q =
     (let n = \<lfloor>q\<rfloor>; f = q - of_int n
      in if f < 1/2 then n else if 1/2 < f then n + 1 else if even n then n else n + 1)"

definition fl :: "real \<Rightarrow> real" where
  "fl x =
     (if x = 0 then 0
      else let e = max \<lfloor>log 2 (abs x)\<rfloor> (- 1022);
               u = 2 powr (of_int e - 52)
           in of_int (round_half_even (x / u)) * u)"

text \<open>
  \<^verbatim>\<open>np.sum\<close> of the flattened array: None when an addition overflows, that is when a
  partial sum reaches \<open>2\<^sup>1\<^sup>0\<^sup>2\<^sup>4 - 2\<^sup>9\<^sup>7\<^sup>0\<close> in magnitude, the least magnitude that rounds to
  \<^verbatim>\<open>inf\<close>; the sum is then \<^verbatim>\<open>inf\<close>, \<^verbatim>\<open>-inf\<close> or NaN. The additions are taken from left to
  right: numpy adds in another order, which gives the same overflow on weights of one sign,
  and weights of both signs end in the same ValueError of \<^verbatim>\<open>np.random.choice\<close> with and
  without overflow.
\<close>

definition dbl_overflow :: real where
  "dbl_overflow = 2 ^ 1024 - 2 ^ 970"

fun np_sum_from :: "real \<Rightarrow> real list \<Rightarrow> real option" where
  "np_sum_from acc [] = Some acc"
| "np_sum_from acc (w # ws) =
     (if dbl_overflow \<le> abs (acc + w) then None else np_sum_from (acc + w) ws)"

definition np_sum :: "real list \<Rightarrow> real option" where
  "np_sum ws = (case ws of [] \<Rightarrow> Some 0 | w # rest \<Rightarrow> np_sum_from w rest)"

text \<open>
  \<^verbatim>\<open>flat_input\<close>, line 360: the weights divided by their sum. None when the sum has
  overflowed or is zero: the quotients are then zeros, infinities or NaN, which
  \<^verbatim>\<open>np.random.choice\<close> refuses (they contain NaN or do not sum to 1). A quotient of
  magnitude at most \<open>dbl_underflow\<close>, half the least positive double, rounds to zero.
\<close>

definition dbl_underflow :: real where
  "dbl_underflow = 1 / 2 ^ 1075"

definition flat_input :: "real list \<Rightarrow> real list option" where
  "flat_input ws =
     (case np_sum ws of
        None \<Rightarrow> None
      | Some t \<Rightarrow>
          if t = 0 then None
          else Some (map (\<lambda>w. if abs (w / t) \<le> dbl_underflow then 0 else w / t) ws))"

text \<open>
  \<^verbatim>\<open>np.random.choice(a, size, replace=False, p)\<close> on the probabilities \<^verbatim>\<open>flat_input\<close>.
  numpy raises ValueError when the probabilities contain NaN, when one is negative, when
  they do not sum to 1 within \<open>choice_atol\<close>, the square root of the machine epsilon,
  when \<open>sz\<close> exceeds the population
  ("Cannot take a larger sample than population when 'replace=False'") and when fewer than
  \<open>sz\<close> probabilities are positive ("Fewer non-zero entries in p than size"). Otherwise it
  returns the positions drawn by the generator.
\<close>

definition choice_atol :: real where
  "choice_atol = 1 / 2 ^ 26"

definition random_choice :: "real list option \<Rightarrow> nat \<Rightarrow> nat list \<Rightarrow> error + nat list" where
  "random_choice probabilities sz draw =
     (case probabilities of
        None \<Rightarrow> Inl ValueError
      | Some probs \<Rightarrow>
          if \<exists>q \<in> set probs. q < 0 then Inl ValueError
          else if choice_atol < abs (sum_list probs - 1) then Inl ValueError
          else if length probs < sz then Inl ValueError
          else if length (filter (\<lambda>q. 0 < q) probs) < sz then Inl ValueError
          else Inr draw)"

text \<open>
  What numpy guarantees of a successful draw without replacement: \<open>sz\<close> pairwise
  distinct positions, each of positive probability.
\<close>

definition choice_outcome :: "real list option \<Rightarrow> nat \<Rightarrow> nat list \<Rightarrow> bool" where
  "choice_outcome probabilities sz draw \<longleftrightarrow>
     (case probabilities of
        None \<Rightarrow> False
      | Some probs \<Rightarrow>
          length draw = sz \<and> distinct draw \<and>
          (\<forall>i \<in> set draw. i < length probs \<and> 0 < probs ! i))"

text \<open>\<^verbatim>\<open>np.linspace(0, N - 1, num=N)\<close>: the floats 0.0, 1.0, ..., N - 1.\<close>

definition choice_1D_arr :: "nat \<Rightarrow> real list" where
  "choice_1D_arr N = map real [0..<N]"

text \<open>The \<^verbatim>\<open>%\<close> of floats: the remainder has the sign of the divisor.\<close>

definition py_mod :: "real \<Rightarrow> real \<Rightarrow> real" where
  "py_mod a b = a - of_int \<lfloor>a / b\<rfloor> * b"

text \<open>\<^verbatim>\<open>scipy.spatial.distance.cdist\<close> with its default Euclidean metric, and \<^verbatim>\<open>distance\<close>.\<close>

definition distance :: "coord \<Rightarrow> coord \<Rightarrow> real" where
  "distance coord_1 coord_2 =
     sqrt ((fst coord_1 - fst coord_2)\<^sup>2 + (snd coord_1 - snd coord_2)\<^sup>2)"

definition cdist :: "coord list \<Rightarrow> coord list \<Rightarrow> ext list list" where
  "cdist XA XB = map (\<lambda>a. map (\<lambda>b. Fin (distance a b)) XB) XA"

text \<open>
  \<^verbatim>\<open>argmin\<close>: the position of the first occurrence of the minimum. \<open>argmin_from\<close> scans
  the rest of the row with the best position and value so far. (numpy raises on an
  empty row; rows have \<open>n \<ge> 2\<close> entries wherever the loop body runs.)
\<close>

fun argmin_from :: "ext list \<Rightarrow> nat \<Rightarrow> nat \<Rightarrow> ext \<Rightarrow> nat" where
  "argmin_from [] i best_i best = best_i"
| "argmin_from (x # xs) i best_i best =
     (if ext_less x best then argmin_from xs (Suc i) i x
      else argmin_from xs (Suc i) best_i best)"

definition argmin :: "ext list \<Rightarrow> nat" where
  "argmin row = (case row of [] \<Rightarrow> 0 | x # xs \<Rightarrow> argmin_from xs 1 0 x)"

text \<open>Python indexing of an array of length \<open>n\<close>: a negative index counts from the end.\<close>

definition py_index :: "nat \<Rightarrow> int \<Rightarrow> nat option" where
  "py_index n i =
     (if 0 \<le> i \<and> i < int n then Some (nat i)
      else if - int n \<le> i \<and> i < 0 then Some (nat (int n + i))
      else None)"

subsection \<open>The Sampler: lines 349 to 382\<close>

text \<open>
  The loop over \<^verbatim>\<open>TSP_points\<close>, with the loop variables \<^verbatim>\<open>n\<close>, \<^verbatim>\<open>max_sum\<close>, \<^verbatim>\<open>start_n\<close>
  and \<^verbatim>\<open>coord_arr\<close> as arguments; \<open>rows\<close> is \<^verbatim>\<open>inputProbDensArray.shape[0]\<close>.
\<close>

fun coord_loop ::
  "nat \<Rightarrow> real \<Rightarrow> real list \<Rightarrow> nat \<Rightarrow> real \<Rightarrow> nat \<Rightarrow> coord list \<Rightarrow> coord list \<times> nat" where
  "coord_loop rows scale_const [] n max_sum start_n coord_arr = (coord_arr, start_n)"
| "coord_loop rows scale_const (point # rest) n max_sum start_n coord_arr =
     (let x = 1 - of_int \<lfloor>point / real rows\<rfloor> * scale_const;
          y = (-1) + py_mod point (real rows) * scale_const;
          coord_arr' = coord_arr[n := (x, y)]
      in if abs x + abs y > max_sum
         then coord_loop rows scale_const rest (n + 1) (abs x + abs y) n coord_arr'
         else coord_loop rows scale_const rest (n + 1) max_sum start_n coord_arr')"

definition sample_sites :: "ndarray \<Rightarrow> real \<Rightarrow> nat list \<Rightarrow> error + (coord list \<times> nat)" where
  "sample_sites inputProbDensArray p draw =
     (if length (shape inputProbDensArray) \<noteq> 2
      then Inl (Exception ''inputProbDensArray must be of dimension 2'')
      else if shape inputProbDensArray ! 0 \<noteq> shape inputProbDensArray ! 1
      then Inl (Exception ''inputProbDensArray must be square array'')
      else if p > 1 \<or> p < 0
      then Inl (Exception ''p must be between 0 and 1'')
      else
        let flat = flatten inputProbDensArray;
            sz = nat \<lceil>fl (p * real (length flat))\<rceil>
        in case random_choice (flat_input flat) sz draw of
             Inl e \<Rightarrow> Inl e
           | Inr picked \<Rightarrow>
               let TSP_points = map (\<lambda>i. choice_1D_arr (length flat) ! i) picked;
                   rows = shape inputProbDensArray ! 0
               in if int rows - 1 = 0 then Inl ZeroDivisionError
                  else Inr (coord_loop rows (2 / (real rows - 1)) TSP_points 0 0 0
                              (replicate sz (0, 0))))"

subsection \<open>The Planner: lines 384 to 434\<close>

text \<open>\<^verbatim>\<open>D[current, visited] = np.inf\<close> on the row \<^verbatim>\<open>D[current]\<close>.\<close>

definition mask_row :: "ext list \<Rightarrow> bool list \<Rightarrow> ext list" where
  "mask_row row visited = map (\<lambda>(d, v). if v then PInf else d) (zip row visited)"

text \<open>The loop \<^verbatim>\<open>for i in range(1, n)\<close> of \<^verbatim>\<open>nn_tsp_matrix\<close>, over the list of its indices.\<close>

fun nn_loop :: "nat list \<Rightarrow> ext list list \<Rightarrow> bool list \<Rightarrow> nat list \<Rightarrow> nat \<Rightarrow> nat list" where
  "nn_loop [] D visited tour current = tour"
| "nn_loop (i # rest) D visited tour current =
     (let D' = D[current := mask_row (D ! current) visited];
          nxt = argmin (D' ! current)
      in nn_loop rest D' (visited[nxt := True]) (tour[i := nxt]) nxt)"

text \<open>
  The visiting order \<^verbatim>\<open>tour\<close> of \<^verbatim>\<open>nn_tsp_matrix\<close>. \<^verbatim>\<open>visited[current] = True\<close> raises
  IndexError when \<open>start_idx\<close> is out of bounds; a negative \<open>start_idx\<close> within bounds
  addresses the same row and entry as its non-negative counterpart in every later use, so
  the model stores the counterpart. \<^verbatim>\<open>np.empty\<close> is a zero-filled array here: the loop
  overwrites every entry.
\<close>

definition nn_tsp_order :: "coord list \<Rightarrow> int \<Rightarrow> error + nat list" where
  "nn_tsp_order coords start_idx =
     (let n = length coords in
      case py_index n start_idx of
        None \<Rightarrow> Inl IndexError
      | Some current \<Rightarrow>
          Inr (nn_loop [1..<n] (cdist coords coords)
                 ((replicate n False)[current := True])
                 ((replicate n 0)[0 := current]) current))"

definition nn_tsp_matrix :: "coord list \<Rightarrow> int \<Rightarrow> error + coord list" where
  "nn_tsp_matrix coords start_idx =
     (case nn_tsp_order coords start_idx of
        Inl e \<Rightarrow> Inl e
      | Inr order \<Rightarrow> Inr (map (\<lambda>i. coords ! i) order))"

text \<open>\<^verbatim>\<open>t[i]\<close> for \<open>- len(t) \<le> i < len(t)\<close>, the only indices \<^verbatim>\<open>tour_length\<close> uses.\<close>

definition py_nth :: "'a list \<Rightarrow> int \<Rightarrow> 'a" where
  "py_nth t i = (if i < 0 then t ! nat (int (length t) + i) else t ! nat i)"

definition tour_length :: "coord list \<Rightarrow> real" where
  "tour_length t =
     sum_list (map (\<lambda>i. distance (py_nth t (int i)) (py_nth t (int i - 1))) [0..<length t])"

subsection \<open>The whole function\<close>

text \<open>
  The Sampler, then line 384, \<^verbatim>\<open>start_coord = coord_arr[start_n]\<close>, which raises IndexError
  when \<^verbatim>\<open>start_n\<close> is not a position of \<^verbatim>\<open>coord_arr\<close>, then the Planner on \<^verbatim>\<open>coord_arr\<close>
  and \<^verbatim>\<open>start_n\<close> and the length of its tour. \<^verbatim>\<open>drift\<close> is a parameter of the function
  and occurs nowhere in its body.
\<close>

definition compressedSensing ::
  "ndarray \<Rightarrow> real \<Rightarrow> int \<Rightarrow> nat list \<Rightarrow> error + (coord list \<times> real)" where
  "compressedSensing inputProbDensArray p drift draw =
     (case sample_sites inputProbDensArray p draw of
        Inl e \<Rightarrow> Inl e
      | Inr (coord_arr, start_n) \<Rightarrow>
          if length coord_arr \<le> start_n then Inl IndexError
          else (case nn_tsp_matrix coord_arr (int start_n) of
                  Inl e \<Rightarrow> Inl e
                | Inr approx_optimal_path \<Rightarrow>
                    Inr (approx_optimal_path, tour_length approx_optimal_path)))"

subsection \<open>Expressions of the Sampler's loop body\<close>

text \<open>
  The pair \<^verbatim>\<open>[x, y]\<close> that lines 376 and 377 compute for one \<^verbatim>\<open>point\<close>, and the sum
  \<^verbatim>\<open>np.abs(x) + np.abs(y)\<close> of line 380, named for the statements below.
\<close>

definition coord_of :: "nat \<Rightarrow> real \<Rightarrow> real \<Rightarrow> coord" where
  "coord_of rows scale_const point =
     (1 - of_int \<lfloor>point / real rows\<rfloor> * scale_const,
      (-1) + py_mod point (real rows) * scale_const)"

definition l1_norm :: "coord \<Rightarrow> real" where
  "l1_norm c = abs (fst c) + abs (snd c)"

subsection \<open>Definitions that follow the specification's words\<close>

text \<open>
  The length of a tour as the specification describes it: the sum of the distances between
  consecutive entries of an open path, with no edge from the last entry back to the first.
\<close>

fun open_path_length :: "coord list \<Rightarrow> real" where
  "open_path_length (a # b # rest) = distance a b + open_path_length (b # rest)"
| "open_path_length [a] = 0"
| "open_path_length [] = 0"

text \<open>
  Step \<open>m\<close> of a visiting order is a nearest-neighbour step with the lowest index on ties:
  the index chosen is in range and not among the \<open>m\<close> indices visited before, no unvisited
  index is closer to the point visited just before, and every unvisited index at the same
  distance is at least the one chosen.
\<close>

definition nearest_unvisited :: "coord list \<Rightarrow> nat list \<Rightarrow> nat \<Rightarrow> bool" where
  "nearest_unvisited coords order m \<longleftrightarrow>
     order ! m < length coords \<and> order ! m \<notin> set (take m order) \<and>
     (\<forall>j \<in> {0..<length coords}. j \<notin> set (take m order) \<longrightarrow>
        distance (coords ! (order ! (m - 1))) (coords ! (order ! m))
          \<le> distance (coords ! (order ! (m - 1))) (coords ! j) \<and>
        (distance (coords ! (order ! (m - 1))) (coords ! j)
           = distance (coords ! (order ! (m - 1))) (coords ! (order ! m)) \<longrightarrow> order ! m \<le> j))"

subsection \<open>The invariant of the Planner's loop\<close>

text \<open>
  Before the iteration \<open>i\<close> of \<^verbatim>\<open>for i in range(1, n)\<close>: the arrays have \<open>n\<close> entries, the
  first \<open>i\<close> entries of \<^verbatim>\<open>tour\<close> are pairwise distinct indices, the last of them is
  \<^verbatim>\<open>current\<close>, \<^verbatim>\<open>visited\<close> marks exactly them, and the rows of \<^verbatim>\<open>D\<close> of every index not
  visited before \<^verbatim>\<open>current\<close> are still the rows \<^verbatim>\<open>cdist\<close> computed.
\<close>

definition nn_inv ::
  "coord list \<Rightarrow> nat \<Rightarrow> ext list list \<Rightarrow> bool list \<Rightarrow> nat list \<Rightarrow> nat \<Rightarrow> bool" where
  "nn_inv coords i D visited tour current \<longleftrightarrow>
     length D = length coords \<and> length visited = length coords \<and>
     length tour = length coords \<and> 1 \<le> i \<and> i \<le> length coords \<and>
     current < length coords \<and> tour ! (i - 1) = current \<and>
     distinct (take i tour) \<and> (\<forall>x \<in> set (take i tour). x < length coords) \<and>
     (\<forall>j<length coords. visited ! j \<longleftrightarrow> j \<in> set (take i tour)) \<and>
     (\<forall>r<length coords. r \<notin> set (take (i - 1) tour) \<longrightarrow> D ! r = cdist coords coords ! r)"

section \<open>Properties\<close>

subsection \<open>Rounding to a double\<close>

lemma round_half_even_of_int: "round_half_even (of_int m) = m"
  by (simp add: round_half_even_def)

lemma round_half_even_bounds:
  "\<lfloor>q\<rfloor> \<le> round_half_even q" "round_half_even q \<le> \<lfloor>q\<rfloor> + 1"
  by (simp_all add: round_half_even_def Let_def)

lemma fl_zero: "fl 0 = 0"
  by (simp add: fl_def)

lemma fl_binade:
  assumes "2 powr of_int e \<le> x" "x < 2 powr (of_int e + 1)" "- 1022 \<le> e"
  shows "fl x = of_int (round_half_even (x / 2 powr (of_int e - 52))) * 2 powr (of_int e - 52)"
proof -
  have x: "0 < x" using assms(1) less_le_trans [OF _ assms(1), of 0] by simp
  have "\<lfloor>log 2 x\<rfloor> = e"
    using floor_log_eq_powr_iff [of x 2 e] x assms(1,2) by simp
  then show ?thesis using x assms(3) by (simp add: fl_def Let_def max_def)
qed

text \<open>A product in [0, 1] rounds into [0, 1]: 0 and 1 are doubles.\<close>

lemma fl_unit_interval:
  assumes "0 \<le> x" "x \<le> 1"
  shows "0 \<le> fl x" "fl x \<le> 1"
proof -
  have "0 \<le> fl x \<and> fl x \<le> 1"
  proof (cases "x = 0")
    case True
    then show ?thesis by (simp add: fl_zero)
  next
    case False
    then have x: "0 < x" using assms(1) by simp
    define e0 where "e0 = \<lfloor>log 2 x\<rfloor>"
    define e where "e = max e0 (- 1022)"
    define u :: real where "u = 2 powr (of_int e - 52)"
    have u: "0 < u" by (simp add: u_def)
    have f: "fl x = of_int (round_half_even (x / u)) * u"
      using False x by (simp add: fl_def Let_def e0_def e_def u_def)
    have b: "2 powr of_int e0 \<le> x" "x < 2 powr (of_int e0 + 1)"
      using floor_log_eq_powr_iff [of x 2 e0] x by (simp_all add: e0_def)
    have "0 \<le> x / u" using x u by simp
    then have "0 \<le> \<lfloor>x / u\<rfloor>" by simp
    then have nn: "0 \<le> round_half_even (x / u)"
      using round_half_even_bounds(1) [of "x / u"] by linarith
    show ?thesis
    proof (cases "x = 1")
      case True
      have "e0 = 0" using True by (simp add: e0_def)
      then have "u = 2 powr (- 52)" by (simp add: u_def e_def)
      then have u52: "u = 1 / 2 ^ 52" by (simp add: powr_minus_divide)
      have "x / u = of_int (2 ^ 52)" using True by (simp add: u52)
      then have "round_half_even (x / u) = 2 ^ 52"
        by (simp only: round_half_even_of_int)
      then show ?thesis by (simp add: f u52)
    next
      case neq: False
      then have x1: "x < 1" using assms(2) by simp
      then have "log 2 x < 0" using x by simp
      then have "e0 \<le> - 1" unfolding e0_def by (simp add: floor_le_iff)
      then have e1: "e \<le> - 1" and ee: "e0 \<le> e" by (simp_all add: e_def)
      have "2 powr (of_int e0 + 1) \<le> (2::real) powr (of_int e + 1)"
        using ee by (intro powr_mono) simp_all
      then have "x < 2 powr (of_int e + 1)"
        using b(2) by linarith
      then have "x / u < 2 powr (of_int e + 1) / u" using u by (simp add: divide_strict_right_mono)
      also have "2 powr (of_int e + 1) / u = 2 powr 53"
        unfolding u_def by (simp add: powr_diff [symmetric])
      also have "(2::real) powr 53 = 2 ^ 53" by (simp add: powr_numeral)
      finally have "x / u < of_int (2 ^ 53)" by simp
      then have "\<lfloor>x / u\<rfloor> < 2 ^ 53" by (simp add: floor_less_iff)
      then have "round_half_even (x / u) \<le> 2 ^ 53"
        using round_half_even_bounds(2) [of "x / u"] by linarith
      then have "of_int (round_half_even (x / u)) * u \<le> of_int (2 ^ 53) * u"
        using u by (simp add: mult_right_mono del: of_int_power)
      also have "of_int (2 ^ 53) * u = 2 powr (of_int e + 1)"
        unfolding u_def by (simp add: powr_diff powr_add powr_numeral)
      also have "\<dots> \<le> 2 powr 0" using e1 by (intro powr_mono) simp_all
      finally have "fl x \<le> 1" unfolding f by simp
      moreover have "0 \<le> fl x" unfolding f using nn u by simp
      ultimately show ?thesis by simp
    qed
  qed
  then show "0 \<le> fl x" "fl x \<le> 1" by simp_all
qed

text \<open>The values rounded in the examples below.\<close>

lemma fl_2: "fl 2 = 2"
proof -
  have "fl 2 = of_int (round_half_even (2 / 2 powr (of_int 1 - 52))) * 2 powr (of_int 1 - 52)"
    by (rule fl_binade) simp_all
  also have "2 powr (of_int 1 - 52) = (1 / 2 ^ 51 :: real)" by (simp add: powr_minus_divide)
  also have "(2::real) / (1 / 2 ^ 51) = of_int (2 ^ 52)" by simp
  finally show ?thesis by (simp only: round_half_even_of_int) simp
qed

lemma fl_3: "fl 3 = 3"
proof -
  have "fl 3 = of_int (round_half_even (3 / 2 powr (of_int 1 - 52))) * 2 powr (of_int 1 - 52)"
    by (rule fl_binade) simp_all
  also have "2 powr (of_int 1 - 52) = (1 / 2 ^ 51 :: real)" by (simp add: powr_minus_divide)
  also have "(3::real) / (1 / 2 ^ 51) = of_int (3 * 2 ^ 51)" by simp
  finally show ?thesis by (simp only: round_half_even_of_int) simp
qed



subsection \<open>The sum, the normalised weights and the draw\<close>

lemma np_sum_from_nonneg:
  assumes "0 \<le> acc" "\<forall>w \<in> set ws. 0 \<le> w" "acc + sum_list ws < dbl_overflow"
  shows "np_sum_from acc ws = Some (acc + sum_list ws)"
  using assms
proof (induction ws arbitrary: acc)
  case Nil
  then show ?case by simp
next
  case (Cons w ws)
  have w: "0 \<le> w" and ws: "\<forall>v \<in> set ws. 0 \<le> v" using Cons.prems(2) by simp_all
  have "0 \<le> sum_list ws" using ws by (simp add: sum_list_nonneg)
  then have "abs (acc + w) < dbl_overflow" using Cons.prems(1,3) w by simp
  then have "np_sum_from acc (w # ws) = np_sum_from (acc + w) ws" by simp
  also have "\<dots> = Some (acc + w + sum_list ws)"
    using Cons.prems(1,3) w ws by (intro Cons.IH) simp_all
  finally show ?case by (simp add: add.assoc)
qed

lemma np_sum_nonneg:
  assumes "\<forall>w \<in> set ws. 0 \<le> w" "sum_list ws < dbl_overflow"
  shows "np_sum ws = Some (sum_list ws)"
proof (cases ws)
  case Nil
  then show ?thesis by (simp add: np_sum_def)
next
  case (Cons w rest)
  then show ?thesis
    using assms np_sum_from_nonneg [of w rest] by (simp add: np_sum_def)
qed

text \<open>
  The normalised weights are the exact quotients when the weights are not negative, their
  sum is positive and does not overflow, and no positive weight underflows to zero.
\<close>

lemma flat_input_quotients:
  assumes "\<forall>w \<in> set ws. 0 \<le> w" "0 < sum_list ws" "sum_list ws < dbl_overflow"
    and "\<forall>w \<in> set ws. 0 < w \<longrightarrow> dbl_underflow < w / sum_list ws"
  shows "flat_input ws = Some (map (\<lambda>w. w / sum_list ws) ws)"
proof -
  have "(if abs (w / sum_list ws) \<le> dbl_underflow then 0 else w / sum_list ws) = w / sum_list ws"
    if "w \<in> set ws" for w
  proof (cases "w = 0")
    case True
    then show ?thesis by simp
  next
    case False
    then have "0 < w" using assms(1) that by fastforce
    then have "dbl_underflow < w / sum_list ws" using assms(4) that by blast
    moreover have "w / sum_list ws \<le> abs (w / sum_list ws)" by (rule abs_ge_self)
    ultimately have "\<not> abs (w / sum_list ws) \<le> dbl_underflow" by linarith
    then show ?thesis by (simp only: if_False)
  qed
  then have "map (\<lambda>w. if abs (w / sum_list ws) \<le> dbl_underflow then 0 else w / sum_list ws) ws
      = map (\<lambda>w. w / sum_list ws) ws"
    by (intro map_cong) simp_all
  then show ?thesis
    unfolding flat_input_def np_sum_nonneg [OF assms(1,3)] using assms(2) by simp
qed

lemma sum_list_quotients:
  fixes t :: real
  shows "sum_list (map (\<lambda>w. w / t) ws) = sum_list ws / t"
  by (induction ws) (simp_all add: add_divide_distrib)

lemma random_choice_succeeds:
  assumes "\<forall>w \<in> set ws. 0 \<le> w" "0 < sum_list ws" "sum_list ws < dbl_overflow"
    and "\<forall>w \<in> set ws. 0 < w \<longrightarrow> dbl_underflow < w / sum_list ws"
    and "k \<le> length (filter (\<lambda>w. 0 < w) ws)"
  shows "random_choice (flat_input ws) k draw = Inr draw"
proof -
  let ?t = "sum_list ws"
  let ?probs = "map (\<lambda>w. w / ?t) ws"
  have 1: "\<not> (\<exists>q \<in> set ?probs. q < 0)"
    using assms(1,2) by (auto simp: divide_less_0_iff)
  have "abs (sum_list ?probs - 1) = 0"
    using assms(2) by (simp add: sum_list_quotients)
  then have 2: "\<not> choice_atol < abs (sum_list ?probs - 1)"
    by (simp add: choice_atol_def)
  have "filter (\<lambda>q. 0 < q) ?probs = map (\<lambda>w. w / ?t) (filter (\<lambda>w. 0 < w) ws)"
    using assms(2) by (simp add: filter_map comp_def zero_less_divide_iff)
  then have 3: "length (filter (\<lambda>q. 0 < q) ?probs) = length (filter (\<lambda>w. 0 < w) ws)"
    by simp
  have 4: "k \<le> length ?probs"
    using assms(5) length_filter_le [of "\<lambda>w. 0 < w" ws] by (simp only: length_map)
  show ?thesis
    unfolding random_choice_def flat_input_quotients [OF assms(1-4)]
    using 1 2 4 assms(5) by (simp only: option.case 3 if_False) simp
qed

lemma random_choice_cases:
  "random_choice probabilities k draw = Inl ValueError \<or>
   random_choice probabilities k draw = Inr draw"
  by (cases probabilities) (simp_all add: random_choice_def)

text \<open>
  Whenever the draw is accepted, an outcome meeting numpy's guarantee exists: the first
  \<open>sz\<close> positions of positive probability. The statements below that assume
  \<open>choice_outcome\<close> are therefore about draws that do occur.
\<close>

lemma choice_outcome_exists:
  assumes "random_choice probabilities sz draw = Inr draw"
  shows "\<exists>d. choice_outcome probabilities sz d"
proof -
  have "probabilities \<noteq> None"
  proof
    assume "probabilities = None"
    then have "random_choice probabilities sz draw = Inl ValueError"
      by (simp add: random_choice_def)
    then show False using assms by simp
  qed
  then obtain probs where p: "probabilities = Some probs" by blast
  let ?pos = "filter (\<lambda>i. 0 < probs ! i) [0..<length probs]"
  have "\<not> length (filter (\<lambda>q. 0 < q) probs) < sz"
  proof
    assume "length (filter (\<lambda>q. 0 < q) probs) < sz"
    then have "random_choice (Some probs) sz draw = Inl ValueError"
      by (simp add: random_choice_def)
    then show False using assms unfolding p by simp
  qed
  then have k: "sz \<le> length (filter (\<lambda>q. 0 < q) probs)" by simp
  have "set ?pos = {i. i < length probs \<and> 0 < probs ! i}" by auto
  then have "card {i. i < length probs \<and> 0 < probs ! i} = length ?pos"
    using distinct_card [of ?pos] by simp
  then have "length (filter (\<lambda>q. 0 < q) probs) = length ?pos"
    by (simp only: length_filter_conv_card)
  then have l: "length (take sz ?pos) = sz" using k by simp
  have d: "distinct (take sz ?pos)" by simp
  have "set (take sz ?pos) \<subseteq> set ?pos" by (rule set_take_subset)
  then have r: "\<forall>i \<in> set (take sz ?pos). i < length probs \<and> 0 < probs ! i"
    by auto
  have "choice_outcome (Some probs) sz (take sz ?pos)"
    unfolding choice_outcome_def option.case using l d r by blast
  then show ?thesis unfolding p by blast
qed

lemma flat_input_length: "flat_input ws = Some probs \<Longrightarrow> length probs = length ws"
  by (auto simp: flat_input_def split: option.splits if_splits)

lemma choice_outcomeD:
  assumes "choice_outcome (flat_input ws) sz draw"
  shows "length draw = sz" "distinct draw" "\<forall>i \<in> set draw. i < length ws"
proof -
  obtain probs where p: "flat_input ws = Some probs"
    using assms by (cases "flat_input ws") (simp_all add: choice_outcome_def)
  have "length draw = sz \<and> distinct draw \<and> (\<forall>i \<in> set draw. i < length probs \<and> 0 < probs ! i)"
    using assms unfolding choice_outcome_def p option.case .
  then show "length draw = sz" "distinct draw" "\<forall>i \<in> set draw. i < length ws"
    using flat_input_length [OF p] by simp_all
qed

text \<open>The uniform maps of the examples below.\<close>

lemma dbl_overflow_large: "100 < dbl_overflow"
  by (simp add: dbl_overflow_def)

lemma dbl_underflow_small: "dbl_underflow < 1 / 100"
  by (simp add: dbl_underflow_def)

lemma flat_input_ones_4: "flat_input [1, 1, 1, 1] = Some [1/4, 1/4, 1/4, 1/4]"
proof -
  have "\<forall>w \<in> set [1, 1, 1, 1 :: real]. 0 < w \<longrightarrow> dbl_underflow < w / sum_list [1, 1, 1, 1]"
    using dbl_underflow_small by simp
  then show ?thesis
    using flat_input_quotients [of "[1, 1, 1, 1]"] dbl_overflow_large by simp
qed

lemma flat_input_ones_9:
  "flat_input [1, 1, 1, 1, 1, 1, 1, 1, 1] = Some [1/9, 1/9, 1/9, 1/9, 1/9, 1/9, 1/9, 1/9, 1/9]"
proof -
  have "\<forall>w \<in> set [1, 1, 1, 1, 1, 1, 1, 1, 1 :: real].
          0 < w \<longrightarrow> dbl_underflow < w / sum_list [1, 1, 1, 1, 1, 1, 1, 1, 1]"
    using dbl_underflow_small by simp
  then show ?thesis
    using flat_input_quotients [of "[1, 1, 1, 1, 1, 1, 1, 1, 1]"] dbl_overflow_large by simp
qed



subsection \<open>The reported length\<close>

lemma distance_sym: "distance a b = distance b a"
  by (simp add: distance_def power2_commute)

lemma distance_self: "distance a a = 0"
  by (simp add: distance_def)

lemma consecutive_sum:
  "sum_list (map (\<lambda>i. distance (t ! i) (t ! (i - Suc 0))) [Suc 0..<length t])
     = open_path_length t"
proof (induction t rule: open_path_length.induct)
  case (1 a b rest)
  let ?f = "\<lambda>t i. distance (t ! i) (t ! (i - Suc 0))"
  let ?m = "length (b # rest)"
  have "[Suc 0..<Suc ?m] = Suc 0 # [Suc (Suc 0)..<Suc ?m]"
    by (rule upt_conv_Cons) simp
  also have "[Suc (Suc 0)..<Suc ?m] = map Suc [Suc 0..<?m]"
    by (rule map_Suc_upt [symmetric])
  finally have u: "[Suc 0..<Suc ?m] = Suc 0 # map Suc [Suc 0..<?m]" .
  have l: "length (a # b # rest) = Suc ?m" by simp
  have "sum_list (map (?f (a # b # rest)) [Suc 0..<length (a # b # rest)])
      = ?f (a # b # rest) (Suc 0)
        + sum_list (map (?f (a # b # rest) \<circ> Suc) [Suc 0..<?m])"
    by (simp only: l u list.map sum_list.Cons map_map)
  also have "map (?f (a # b # rest) \<circ> Suc) [Suc 0..<?m] = map (?f (b # rest)) [Suc 0..<?m]"
    by (rule map_cong) (auto simp: nth_Cons' simp del: upt_Suc)
  also have "?f (a # b # rest) (Suc 0) = distance a b"
    by (simp add: distance_sym)
  finally show ?case using 1 by simp
qed simp_all

lemma tour_length_split:
  assumes "t \<noteq> []"
  shows "tour_length t = distance (hd t) (last t)
           + sum_list (map (\<lambda>i. distance (t ! i) (t ! (i - Suc 0))) [Suc 0..<length t])"
proof -
  let ?g = "\<lambda>i. distance (py_nth t (int i)) (py_nth t (int i - 1))"
  have u: "[0..<length t] = 0 # [Suc 0..<length t]"
    using assms by (simp add: upt_conv_Cons)
  have h: "?g 0 = distance (hd t) (last t)"
    using assms by (simp add: py_nth_def hd_conv_nth last_conv_nth nat_diff_distrib')
  have r: "map ?g [Suc 0..<length t]
         = map (\<lambda>i. distance (t ! i) (t ! (i - Suc 0))) [Suc 0..<length t]"
    by (rule map_cong) (auto simp: py_nth_def nat_diff_distrib')
  have "tour_length t = ?g 0 + sum_list (map ?g [Suc 0..<length t])"
    by (simp only: tour_length_def u list.map sum_list.Cons)
  then show ?thesis by (simp only: h r)
qed

text \<open>
  \<^verbatim>\<open>tour_length\<close> sums \<^verbatim>\<open>distance(tour[i], tour[i-1])\<close> from \<open>i = 0\<close>, and \<^verbatim>\<open>tour[-1]\<close> is
  the last entry: the value is the length of the open path plus the edge between the
  first and the last entry.
\<close>

lemma tour_length_counts_closing_edge:
  "(t \<noteq> [] \<longrightarrow> tour_length t = open_path_length t + distance (hd t) (last t))
   \<and> tour_length [a, b] = 2 * distance a b \<and> tour_length [a] = 0 \<and> tour_length [] = 0"
proof -
  have g: "tour_length u = open_path_length u + distance (hd u) (last u)" if "u \<noteq> []" for u
    using tour_length_split [OF that] consecutive_sum [of u] by linarith
  have 2: "tour_length [a, b] = 2 * distance a b"
    using g [of "[a, b]"] by (simp add: distance_sym)
  have 3: "tour_length [a] = 0"
    using g [of "[a]"] by (simp add: distance_self)
  have 4: "tour_length [] = 0" by (simp add: tour_length_def)
  show ?thesis using g 2 3 4 by blast
qed

subsection \<open>Validation\<close>

lemma sample_sites_invalid:
  "length (shape a) \<noteq> 2 \<Longrightarrow>
     sample_sites a p draw = Inl (Exception ''inputProbDensArray must be of dimension 2'')"
  "length (shape a) = 2 \<Longrightarrow> shape a ! 0 \<noteq> shape a ! 1 \<Longrightarrow>
     sample_sites a p draw = Inl (Exception ''inputProbDensArray must be square array'')"
  "length (shape a) = 2 \<Longrightarrow> shape a ! 0 = shape a ! 1 \<Longrightarrow> p > 1 \<or> p < 0 \<Longrightarrow>
     sample_sites a p draw = Inl (Exception ''p must be between 0 and 1'')"
  unfolding sample_sites_def by simp_all

text \<open>
  C5. A density map that is not 2-dimensional or not square, and a ratio \<open>p\<close> outside
  [0, 1], make the Sampler and the whole function raise one of the three validation
  Exceptions. The exception is the same for every outcome \<open>draw\<close> of the generator: the
  draw is never looked at, and nothing is returned.
\<close>

theorem validation_rejects_before_sampling:
  "length (shape a) \<noteq> 2 \<or> shape a ! 0 \<noteq> shape a ! 1 \<or> p > 1 \<or> p < 0 \<Longrightarrow>
   \<exists>msg. (\<forall>draw. sample_sites a p draw = Inl (Exception msg)) \<and>
         (\<forall>drift draw. compressedSensing a p drift draw = Inl (Exception msg))"
proof -
  assume h: "length (shape a) \<noteq> 2 \<or> shape a ! 0 \<noteq> shape a ! 1 \<or> p > 1 \<or> p < 0"
  have "\<exists>msg. \<forall>draw. sample_sites a p draw = Inl (Exception msg)"
  proof (cases "length (shape a) \<noteq> 2")
    case True
    then show ?thesis using sample_sites_invalid(1) by blast
  next
    case two: False
    show ?thesis
    proof (cases "shape a ! 0 \<noteq> shape a ! 1")
      case True
      then show ?thesis using two sample_sites_invalid(2) by blast
    next
      case False
      then have "p > 1 \<or> p < 0" using h two by blast
      then show ?thesis using two False sample_sites_invalid(3) by blast
    qed
  qed
  then obtain msg where m: "\<And>draw. sample_sites a p draw = Inl (Exception msg)" by blast
  have "compressedSensing a p drift draw = Inl (Exception msg)" for drift draw
    unfolding compressedSensing_def m by simp
  then show ?thesis using m by blast
qed

theorem validation_rejects_before_sampling_witness:
  "\<exists>msg. (\<forall>draw. sample_sites \<lparr>shape = [3, 4], flatten = replicate 12 1\<rparr> (1/2) draw
                = Inl (Exception msg)) \<and>
         (\<forall>drift draw.
            compressedSensing \<lparr>shape = [3, 4], flatten = replicate 12 1\<rparr> (1/2) drift draw
                = Inl (Exception msg))"
proof -
  have h: "length (shape \<lparr>shape = [3, 4], flatten = replicate 12 1\<rparr>) \<noteq> 2 \<or>
    shape \<lparr>shape = [3, 4], flatten = replicate 12 1\<rparr> ! 0
      \<noteq> shape \<lparr>shape = [3, 4], flatten = replicate 12 1\<rparr> ! 1 \<or>
    (1/2 :: real) > 1 \<or> (1/2 :: real) < 0"
    by simp
  show ?thesis
    by (rule validation_rejects_before_sampling [OF h])
qed

subsection \<open>The drift parameter\<close>

text \<open>
  C9. \<^verbatim>\<open>drift\<close> is never read: for the same density map, ratio and outcome of the generator,
  any two drift values give the same result (the same path and length, or the same error).
\<close>

theorem drift_inert:
  "compressedSensing inputProbDensArray p drift1 draw
     = compressedSensing inputProbDensArray p drift2 draw"
  by (simp add: compressedSensing_def)

subsection \<open>The 1 by 1 density map\<close>

lemma sample_sites_one_by_one:
  assumes "0 \<le> p" "p \<le> 1"
  shows "sample_sites \<lparr>shape = [1, 1], flatten = [w]\<rparr> p draw
           = Inl (if w = 0 then ValueError else ZeroDivisionError)"
proof -
  have v: "\<not> (p > 1 \<or> p < 0)" using assms by simp
  have "fl (p * real (length [w])) \<le> 1"
    using fl_unit_interval(2) [of "p * real (length [w])"] assms by simp
  then have "\<lceil>fl (p * real (length [w]))\<rceil> \<le> 1" by (simp add: ceiling_le_iff)
  then have c: "nat \<lceil>fl (p * real (length [w]))\<rceil> \<le> Suc 0" by simp
  show ?thesis
  proof (cases "w = 0")
    case True
    have "flat_input [w] = None" using True by (simp add: flat_input_def np_sum_def)
    then have "random_choice (flat_input [w]) (nat \<lceil>fl (p * real (length [w]))\<rceil>) draw
                 = Inl ValueError"
      by (simp add: random_choice_def)
    then show ?thesis using True v by (simp add: sample_sites_def Let_def)
  next
    case False
    have "\<not> abs (w / w) \<le> dbl_underflow" using False dbl_underflow_small by simp
    then have "flat_input [w] = Some [1]"
      using False by (simp add: flat_input_def np_sum_def)
    moreover have "\<not> choice_atol < 0" by (simp add: choice_atol_def)
    ultimately have "random_choice (flat_input [w]) (nat \<lceil>fl (p * real (length [w]))\<rceil>) draw
                 = Inr draw"
      using c by (simp add: random_choice_def)
    then show ?thesis using False v by (simp add: sample_sites_def Let_def)
  qed
qed

text \<open>
  C10 (as amended). On a 1 by 1 density map with \<open>p\<close> in [0, 1] the validation passes and
  the call never returns a path: when the single weight is not zero it stops at the
  division \<^verbatim>\<open>2/(n - 1)\<close> with ZeroDivisionError, and when the weight is zero the draw has
  failed before with ValueError (the probabilities are NaN). Neither is a validation
  Exception.
\<close>

theorem one_by_one_never_returns:
  "0 \<le> p \<Longrightarrow> p \<le> 1 \<Longrightarrow>
   compressedSensing \<lparr>shape = [1, 1], flatten = [w]\<rparr> p drift draw
     = Inl (if w = 0 then ValueError else ZeroDivisionError)"
  unfolding compressedSensing_def by (simp only: sample_sites_one_by_one sum.case)

theorem one_by_one_never_returns_witness:
  "(0 :: real) \<le> 1/2 \<and> (1/2 :: real) \<le> 1 \<and>
   compressedSensing \<lparr>shape = [1, 1], flatten = [3]\<rparr> (1/2) 0 [0] = Inl ZeroDivisionError"
proof -
  have h: "(0 :: real) \<le> 1/2" "(1/2 :: real) \<le> 1" by simp_all
  show ?thesis
    using one_by_one_never_returns [OF h, of 3 0 "[0]"] by simp
qed

text \<open>
  C10 as stated fails on the 1 by 1 map of weight 0: the call stops in the draw with
  ValueError and the division \<^verbatim>\<open>2/(n - 1)\<close> is never reached.
\<close>

theorem one_by_one_zero_weight_counterexample:
  "compressedSensing \<lparr>shape = [1, 1], flatten = [0]\<rparr> (1/2) 0 [0] = Inl ValueError \<and>
   compressedSensing \<lparr>shape = [1, 1], flatten = [0]\<rparr> (1/2) 0 [0] \<noteq> Inl ZeroDivisionError"
  unfolding compressedSensing_def
  by (simp add: sample_sites_one_by_one [of "1/2" 0 "[0]", simplified])

subsection \<open>The Sampler\<close>

lemma coord_loop_step:
  "coord_loop rows sc (pt # rest) n ms sn arr =
     (if l1_norm (coord_of rows sc pt) > ms
      then coord_loop rows sc rest (Suc n) (l1_norm (coord_of rows sc pt)) n
             (arr[n := coord_of rows sc pt])
      else coord_loop rows sc rest (Suc n) ms sn (arr[n := coord_of rows sc pt]))"
  by (simp add: Let_def coord_of_def l1_norm_def)

lemma coord_loop_arr:
  "n + length pts \<le> length arr \<Longrightarrow>
   fst (coord_loop rows sc pts n ms sn arr)
     = take n arr @ map (coord_of rows sc) pts @ drop (n + length pts) arr"
proof (induction pts arbitrary: n ms sn arr)
  case Nil
  then show ?case by simp
next
  case (Cons pt rest)
  let ?c = "coord_of rows sc pt"
  let ?arr = "arr[n := ?c]"
  have n: "n < length arr" using Cons.prems by simp
  have len: "Suc n + length rest \<le> length ?arr" using Cons.prems by simp
  have t: "take (Suc n) ?arr = take n arr @ [?c]"
    using n by (simp add: take_Suc_conv_app_nth)
  have d: "drop (Suc n + length rest) ?arr = drop (n + length (pt # rest)) arr"
    by simp
  have "fst (coord_loop rows sc (pt # rest) n ms sn arr)
      = take (Suc n) ?arr @ map (coord_of rows sc) rest @ drop (Suc n + length rest) ?arr"
    using Cons.IH [OF len] by (simp only: coord_loop_step split: if_splits) simp
  then show ?case by (simp only: t d) simp
qed

lemma coord_loop_start:
  "snd (coord_loop rows sc pts n ms sn arr) = s \<Longrightarrow>
   (s = sn \<and> (\<forall>j<length pts. l1_norm (coord_of rows sc (pts ! j)) \<le> ms)) \<or>
   (n \<le> s \<and> s < n + length pts \<and> ms < l1_norm (coord_of rows sc (pts ! (s - n))) \<and>
    (\<forall>j<length pts. l1_norm (coord_of rows sc (pts ! j))
                      \<le> l1_norm (coord_of rows sc (pts ! (s - n)))))"
proof (induction pts arbitrary: n ms sn arr)
  case Nil
  then show ?case by simp
next
  case (Cons pt rest)
  let ?f = "\<lambda>q. l1_norm (coord_of rows sc q)"
  let ?arr = "arr[n := coord_of rows sc pt]"
  show ?case
  proof (cases "?f pt > ms")
    case True
    then have "snd (coord_loop rows sc rest (Suc n) (?f pt) n ?arr) = s"
      using Cons.prems by (simp only: coord_loop_step if_True)
    from Cons.IH [OF this]
    consider (keep) "s = n" "\<forall>j<length rest. ?f (rest ! j) \<le> ?f pt"
      | (later) "Suc n \<le> s" "s < Suc n + length rest" "?f pt < ?f (rest ! (s - Suc n))"
          "\<forall>j<length rest. ?f (rest ! j) \<le> ?f (rest ! (s - Suc n))"
      by blast
    then show ?thesis
    proof cases
      case keep
      have "\<forall>j<length (pt # rest). ?f ((pt # rest) ! j) \<le> ?f ((pt # rest) ! (s - n))"
        using keep by (auto simp: nth_Cons')
      then show ?thesis using keep True by simp
    next
      case later
      have e: "(pt # rest) ! (s - n) = rest ! (s - Suc n)"
        using later(1) by (simp add: nth_Cons')
      have "\<forall>j<length (pt # rest). ?f ((pt # rest) ! j) \<le> ?f (rest ! (s - Suc n))"
        using later by (auto simp: nth_Cons' less_Suc_eq_0_disj)
      then show ?thesis using later True e by auto
    qed
  next
    case False
    then have "snd (coord_loop rows sc rest (Suc n) ms sn ?arr) = s"
      using Cons.prems by (simp only: coord_loop_step if_False)
    from Cons.IH [OF this]
    consider (keep) "s = sn" "\<forall>j<length rest. ?f (rest ! j) \<le> ms"
      | (later) "Suc n \<le> s" "s < Suc n + length rest" "ms < ?f (rest ! (s - Suc n))"
          "\<forall>j<length rest. ?f (rest ! j) \<le> ?f (rest ! (s - Suc n))"
      by blast
    then show ?thesis
    proof cases
      case keep
      have "\<forall>j<length (pt # rest). ?f ((pt # rest) ! j) \<le> ms"
        using keep False by (auto simp: nth_Cons')
      then show ?thesis using keep by simp
    next
      case later
      have e: "(pt # rest) ! (s - n) = rest ! (s - Suc n)"
        using later(1) by (simp add: nth_Cons')
      have "\<forall>j<length (pt # rest). ?f ((pt # rest) ! j) \<le> ?f (rest ! (s - Suc n))"
        using later False by (auto simp: nth_Cons' less_Suc_eq_0_disj)
      then show ?thesis using later e by auto
    qed
  qed
qed


lemma coord_of_index:
  assumes "0 < n"
  shows "coord_of n sc (real i) = (1 - real (i div n) * sc, - 1 + real (i mod n) * sc)"
proof -
  have f: "\<lfloor>real i / real n\<rfloor> = int (i div n)"
    by (simp add: floor_divide_of_nat_eq)
  have "real i = real (i div n) * real n + real (i mod n)"
    by (metis div_mult_mod_eq of_nat_add of_nat_mult)
  then have m: "py_mod (real i) (real n) = real (i mod n)"
    unfolding py_mod_def f by simp
  show ?thesis unfolding coord_of_def m f by simp
qed




lemma sample_sites_InrD:
  assumes "sample_sites a p draw = Inr r"
  shows "length (shape a) = 2" "shape a ! 0 = shape a ! 1" "0 \<le> p" "p \<le> 1"
    "shape a ! 0 \<noteq> 1"
    "random_choice (flat_input (flatten a))
       (nat \<lceil>fl (p * real (length (flatten a)))\<rceil>) draw = Inr draw"
proof -
  show 1: "length (shape a) = 2"
    using assms unfolding sample_sites_def by (simp split: if_splits)
  show 2: "shape a ! 0 = shape a ! 1"
    using assms 1 unfolding sample_sites_def by (simp split: if_splits)
  show 3: "0 \<le> p" and 4: "p \<le> 1"
    using assms 1 2 unfolding sample_sites_def by (simp_all split: if_splits)
  have v: "\<not> (p > 1 \<or> p < 0)" using 3 4 by simp
  show 5: "random_choice (flat_input (flatten a))
       (nat \<lceil>fl (p * real (length (flatten a)))\<rceil>) draw = Inr draw"
    using assms 1 2 v random_choice_cases [of "flat_input (flatten a)"
        "nat \<lceil>fl (p * real (length (flatten a)))\<rceil>" draw]
    unfolding sample_sites_def by (auto simp: Let_def)
  show "shape a ! 0 \<noteq> 1"
    using assms 1 2 v 5 unfolding sample_sites_def by (auto simp: Let_def split: if_splits)
qed

lemma sample_sites_drawn:
  assumes "length (shape a) = 2" "shape a ! 0 = shape a ! 1" "shape a ! 0 \<noteq> 1"
    and "0 \<le> p" "p \<le> 1"
    and "random_choice (flat_input (flatten a))
           (nat \<lceil>fl (p * real (length (flatten a)))\<rceil>) draw = Inr draw"
    and "choice_outcome (flat_input (flatten a))
           (nat \<lceil>fl (p * real (length (flatten a)))\<rceil>) draw"
  shows "sample_sites a p draw =
           Inr (map (coord_of (shape a ! 0) (2 / (real (shape a ! 0) - 1))) (map real draw),
                snd (coord_loop (shape a ! 0) (2 / (real (shape a ! 0) - 1)) (map real draw)
                       0 0 0 (replicate (length draw) (0, 0))))"
proof -
  let ?N = "length (flatten a)"
  let ?n = "shape a ! 0"
  let ?sz = "nat \<lceil>fl (p * real ?N)\<rceil>"
  have len: "length draw = ?sz" and inb: "\<forall>i \<in> set draw. i < ?N"
    using choice_outcomeD [OF assms(7)] by simp_all
  have pts: "map (\<lambda>i. choice_1D_arr ?N ! i) draw = map real draw"
    using inb by (simp add: choice_1D_arr_def)
  have one: "int ?n - 1 \<noteq> 0" using assms(3) by simp
  have v: "\<not> (p > 1 \<or> p < 0)" using assms(4,5) by simp
  have "sample_sites a p draw =
          Inr (coord_loop ?n (2 / (real ?n - 1)) (map real draw) 0 0 0
                 (replicate (length draw) (0, 0)))"
    unfolding sample_sites_def using assms(1,2,6) one v
    by (simp add: Let_def pts len)
  moreover have "fst (coord_loop ?n (2 / (real ?n - 1)) (map real draw) 0 0 0
                   (replicate (length draw) (0, 0)))
      = map (coord_of ?n (2 / (real ?n - 1))) (map real draw)"
    by (simp add: coord_loop_arr)
  ultimately show ?thesis by (simp add: prod_eq_iff)
qed

text \<open>Runs of the Sampler used as examples below.\<close>

lemma accepted_ones_4:
  "random_choice (flat_input [1, 1, 1, 1]) 2 draw = Inr draw"
  by (rule random_choice_succeeds) (use dbl_overflow_large dbl_underflow_small in simp_all)

lemma accepted_ones_9:
  "random_choice (flat_input [1, 1, 1, 1, 1, 1, 1, 1, 1]) 3 draw = Inr draw"
  by (rule random_choice_succeeds) (use dbl_overflow_large dbl_underflow_small in simp_all)

lemma sample_two_by_two:
  "sample_sites \<lparr>shape = [2, 2], flatten = [1, 1, 1, 1]\<rparr> (1/2) [3, 0]
     = Inr ([(- 1, 1), (1, - 1)], 0)"
proof -
  have "sample_sites \<lparr>shape = [2, 2], flatten = [1, 1, 1, 1]\<rparr> (1/2) [3, 0]
      = Inr (coord_loop 2 2 [3, 0] 0 0 0 (replicate 2 (0, 0)))"
    by (simp add: sample_sites_def fl_2 accepted_ones_4 choice_1D_arr_def Let_def upt_rec)
  also have "coord_loop 2 2 [3, 0] 0 0 0 (replicate 2 (0, 0)) = ([(- 1, 1), (1, - 1)], 0)"
    by (simp add: py_mod_def Let_def eval_nat_numeral)
  finally show ?thesis .
qed

lemma outcome_two_by_two:
  "choice_outcome (flat_input (flatten \<lparr>shape = [2, 2], flatten = [1, 1, 1, 1]\<rparr>))
     (nat \<lceil>fl (1/2 * real (length (flatten \<lparr>shape = [2, 2], flatten = [1, 1, 1, 1]\<rparr>)))\<rceil>) [3, 0]"
  by (simp add: choice_outcome_def flat_input_ones_4 fl_2)

lemma sample_three_by_three:
  "sample_sites \<lparr>shape = [3, 3], flatten = [1, 1, 1, 1, 1, 1, 1, 1, 1]\<rparr> (1/3) [4, 0, 8]
     = Inr ([(0, 0), (1, - 1), (- 1, 1)], 1)"
proof -
  have "sample_sites \<lparr>shape = [3, 3], flatten = [1, 1, 1, 1, 1, 1, 1, 1, 1]\<rparr> (1/3) [4, 0, 8]
      = Inr (coord_loop 3 1 [4, 0, 8] 0 0 0 (replicate 3 (0, 0)))"
    by (simp add: sample_sites_def fl_3 accepted_ones_9 choice_1D_arr_def Let_def upt_rec)
  also have "coord_loop 3 1 [4, 0, 8] 0 0 0 (replicate 3 (0, 0))
      = ([(0, 0), (1, - 1), (- 1, 1)], 1)"
    by (simp add: py_mod_def Let_def eval_nat_numeral)
  finally show ?thesis .
qed

lemma outcome_three_by_three:
  "choice_outcome (flat_input (flatten \<lparr>shape = [3, 3], flatten = [1, 1, 1, 1, 1, 1, 1, 1, 1]\<rparr>))
     (nat \<lceil>fl (1/3 * real (length (flatten \<lparr>shape = [3, 3], flatten = [1, 1, 1, 1, 1, 1, 1, 1, 1]\<rparr>)))\<rceil>)
     [4, 0, 8]"
  by (simp add: choice_outcome_def flat_input_ones_9 fl_3)

text \<open>
  C8. When the Sampler returns, the coordinate at position \<open>j\<close> of its array is computed
  from the flat index \<open>draw ! j\<close> as \<open>x = 1 - (index div n) * scale\<close> and
  \<open>y = -1 + (index mod n) * scale\<close> with \<open>scale = 2 / (n - 1)\<close>: the floor of the float
  division and the float remainder of the code are the integer quotient and remainder.
  Row 0 gives \<open>x = 1\<close> and column 0 gives \<open>y = -1\<close>.
\<close>

theorem index_to_coordinate:
  assumes "sample_sites a p draw = Inr (coords, s)"
    and "choice_outcome (flat_input (flatten a))
           (nat \<lceil>fl (p * real (length (flatten a)))\<rceil>) draw"
    and "shape a = [n, n]" "2 \<le> n" "j < length draw"
  shows "coords ! j = (1 - real (draw ! j div n) * (2 / (real n - 1)),
                       - 1 + real (draw ! j mod n) * (2 / (real n - 1)))
         \<and> (draw ! j div n = 0 \<longrightarrow> fst (coords ! j) = 1)
         \<and> (draw ! j mod n = 0 \<longrightarrow> snd (coords ! j) = - 1)"
proof -
  note d = sample_sites_InrD [OF assms(1)]
  have n: "shape a ! 0 = n" "0 < n" using assms(3,4) by simp_all
  have "coords = map (coord_of n (2 / (real n - 1))) (map real draw)"
    using sample_sites_drawn [OF d(1,2,5,3,4,6) assms(2)] assms(1) n by simp
  then have "coords ! j = coord_of n (2 / (real n - 1)) (real (draw ! j))"
    using assms(5) by simp
  then have c: "coords ! j = (1 - real (draw ! j div n) * (2 / (real n - 1)),
                       - 1 + real (draw ! j mod n) * (2 / (real n - 1)))"
    by (simp only: coord_of_index [OF n(2)])
  show ?thesis unfolding c by simp
qed

theorem index_to_coordinate_witness:
  "sample_sites \<lparr>shape = [2, 2], flatten = [1, 1, 1, 1]\<rparr> (1/2) [3, 0]
     = Inr ([(- 1, 1), (1, - 1)], 0) \<and>
   [(- 1, 1), (1, - 1)] ! 0
     = (1 - real (3 div 2) * (2 / (real 2 - 1)), - 1 + real (3 mod 2) * (2 / (real 2 - 1))) \<and>
   [(- 1, 1), (1 :: real, - 1 :: real)] ! 1
     = (1 - real (0 div 2) * (2 / (real 2 - 1)), - 1 + real (0 mod 2) * (2 / (real 2 - 1)))"
  using index_to_coordinate [OF sample_two_by_two outcome_two_by_two, of 2 0]
    index_to_coordinate [OF sample_two_by_two outcome_two_by_two, of 2 1]
    sample_two_by_two
  by simp




subsection \<open>The Planner\<close>

lemma ext_less_irrefl: "\<not> ext_less a a"
  by (cases a) simp_all

lemma ext_less_trans: "ext_less a b \<Longrightarrow> ext_less b c \<Longrightarrow> ext_less a c"
  by (cases a; cases b; cases c) simp_all

lemma ext_less_le_trans: "ext_less x b \<Longrightarrow> \<not> ext_less a b \<Longrightarrow> ext_less x a"
  by (cases a; cases b; cases x) simp_all

lemma argmin_from_spec:
  assumes "i = length pre" "bi < length pre" "pre ! bi = b"
    and "\<forall>j<length pre. \<not> ext_less (pre ! j) b"
    and "\<forall>j<bi. ext_less b (pre ! j)"
  shows "argmin_from xs i bi b < length (pre @ xs) \<and>
         (\<forall>j<length (pre @ xs). \<not> ext_less ((pre @ xs) ! j) ((pre @ xs) ! argmin_from xs i bi b)) \<and>
         (\<forall>j<argmin_from xs i bi b. ext_less ((pre @ xs) ! argmin_from xs i bi b) ((pre @ xs) ! j))"
  using assms
proof (induction xs arbitrary: pre i bi b)
  case Nil
  then show ?case by simp
next
  case (Cons x xs)
  let ?pre = "pre @ [x]"
  have app: "?pre @ xs = pre @ x # xs" by simp
  have old: "?pre ! j = pre ! j" if "j < length pre" for j
    using that by (simp add: nth_append)
  have new: "?pre ! length pre = x" by simp
  show ?case
  proof (cases "ext_less x b")
    case True
    have 1: "Suc i = length ?pre" "i < length ?pre" "?pre ! i = x"
      using Cons.prems(1) by simp_all
    have 2: "\<forall>j<length ?pre. \<not> ext_less (?pre ! j) x"
    proof (intro allI impI)
      fix j assume "j < length ?pre"
      then consider "j < length pre" | "j = length pre" by fastforce
      then show "\<not> ext_less (?pre ! j) x"
      proof cases
        case 1
        then have "\<not> ext_less (pre ! j) b" using Cons.prems(4) by simp
        then have "\<not> ext_less (pre ! j) x" using True ext_less_trans by blast
        then show ?thesis using old [OF 1] by simp
      next
        case 2
        then show ?thesis using ext_less_irrefl by simp
      qed
    qed
    have 3: "\<forall>j<i. ext_less x (?pre ! j)"
    proof (intro allI impI)
      fix j assume j: "j < i"
      then have "\<not> ext_less (pre ! j) b" using Cons.prems(1,4) by simp
      then have "ext_less x (pre ! j)" using True ext_less_le_trans by blast
      then show "ext_less x (?pre ! j)" using old j Cons.prems(1) by simp
    qed
    have e: "argmin_from (x # xs) i bi b = argmin_from xs (Suc i) i x"
      using True by simp
    show ?thesis
      using Cons.IH [OF 1 2 3] unfolding app e by assumption
  next
    case False
    have 1: "Suc i = length ?pre" "bi < length ?pre" "?pre ! bi = b"
      using Cons.prems(1,2,3) by (simp_all add: nth_append)
    have 2: "\<forall>j<length ?pre. \<not> ext_less (?pre ! j) b"
    proof (intro allI impI)
      fix j assume "j < length ?pre"
      then consider "j < length pre" | "j = length pre" by fastforce
      then show "\<not> ext_less (?pre ! j) b"
      proof cases
        case 1
        then show ?thesis using Cons.prems(4) old [OF 1] by simp
      next
        case 2
        then show ?thesis using False by simp
      qed
    qed
    have 3: "\<forall>j<bi. ext_less b (?pre ! j)"
      using Cons.prems(2,5) old by simp
    have e: "argmin_from (x # xs) i bi b = argmin_from xs (Suc i) bi b"
      using False by simp
    show ?thesis
      using Cons.IH [OF 1 2 3] unfolding app e by assumption
  qed
qed

lemma argmin_spec:
  assumes "row \<noteq> []"
  shows "argmin row < length row"
    and "\<forall>j<length row. \<not> ext_less (row ! j) (row ! argmin row)"
    and "\<forall>j<argmin row. ext_less (row ! argmin row) (row ! j)"
proof -
  obtain x xs where r: "row = x # xs" using assms by (cases row) auto
  have a: "argmin (x # xs) = argmin_from xs 1 0 x" by (simp add: argmin_def)
  have p: "[x] @ xs = x # xs" by simp
  have "argmin_from xs 1 0 x < length ([x] @ xs) \<and>
         (\<forall>j<length ([x] @ xs). \<not> ext_less (([x] @ xs) ! j) (([x] @ xs) ! argmin_from xs 1 0 x)) \<and>
         (\<forall>j<argmin_from xs 1 0 x. ext_less (([x] @ xs) ! argmin_from xs 1 0 x) (([x] @ xs) ! j))"
    by (rule argmin_from_spec) (simp_all add: ext_less_irrefl)
  then have "argmin row < length row \<and>
         (\<forall>j<length row. \<not> ext_less (row ! j) (row ! argmin row)) \<and>
         (\<forall>j<argmin row. ext_less (row ! argmin row) (row ! j))"
    unfolding r a p by assumption
  then show "argmin row < length row"
    and "\<forall>j<length row. \<not> ext_less (row ! j) (row ! argmin row)"
    and "\<forall>j<argmin row. ext_less (row ! argmin row) (row ! j)"
    by blast+
qed

lemma cdist_row:
  "r < length coords \<Longrightarrow>
   cdist coords coords ! r = map (\<lambda>b. Fin (distance (coords ! r) b)) coords"
  by (simp add: cdist_def)

lemma mask_row_nth:
  "length row = length vis \<Longrightarrow> j < length vis \<Longrightarrow>
   mask_row row vis ! j = (if vis ! j then PInf else row ! j)"
  by (simp add: mask_row_def)

lemma length_mask_row: "length row = length vis \<Longrightarrow> length (mask_row row vis) = length vis"
  by (simp add: mask_row_def)


lemma some_unvisited:
  assumes "distinct xs" "\<forall>x \<in> set xs. x < n" "length xs < n"
  shows "\<exists>j<n. j \<notin> set xs"
proof (rule ccontr)
  assume "\<not> (\<exists>j<n. j \<notin> set xs)"
  then have "{..<n} \<subseteq> set xs" by auto
  then have "card {..<n} \<le> card (set xs)" by (intro card_mono) simp_all
  then have "n \<le> length xs" using assms(1) by (simp add: distinct_card)
  then show False using assms(3) by simp
qed

lemma nn_inv_step:
  assumes inv: "nn_inv coords i D visited t current" and i: "i < length coords"
  defines "row \<equiv> mask_row (D ! current) visited"
  defines "nxt \<equiv> argmin row"
  shows "nn_inv coords (Suc i) (D[current := row]) (visited[nxt := True]) (t[i := nxt]) nxt"
    and "nxt < length coords" and "nxt \<notin> set (take i t)"
    and "\<forall>j<length coords. j \<notin> set (take i t) \<longrightarrow>
           distance (coords ! current) (coords ! nxt) \<le> distance (coords ! current) (coords ! j) \<and>
           (distance (coords ! current) (coords ! j) = distance (coords ! current) (coords ! nxt)
              \<longrightarrow> nxt \<le> j)"
proof -
  let ?n = "length coords"
  have lD: "length D = ?n" and lv: "length visited = ?n" and lt: "length t = ?n"
    and i1: "1 \<le> i" and cn: "current < ?n" and tc: "t ! (i - 1) = current"
    and dt: "distinct (take i t)" and bt: "\<forall>x \<in> set (take i t). x < ?n"
    and vt: "\<forall>j<?n. visited ! j \<longleftrightarrow> j \<in> set (take i t)"
    and rows: "\<forall>r<?n. r \<notin> set (take (i - 1) t) \<longrightarrow> D ! r = cdist coords coords ! r"
    using inv unfolding nn_inv_def by blast+
  have si: "Suc (i - 1) = i" using i1 by simp
  have ti: "take i t = take (i - 1) t @ [current]"
    using take_Suc_conv_app_nth [of "i - 1" t] i lt tc si by simp
  have cin: "current \<in> set (take i t)" unfolding ti by simp
  have cout: "current \<notin> set (take (i - 1) t)" using dt unfolding ti by simp
  have Dc: "D ! current = map (\<lambda>b. Fin (distance (coords ! current) b)) coords"
    using rows cn cout cdist_row [OF cn] by simp
  have lrow: "length row = ?n" unfolding row_def using Dc lv by (simp add: length_mask_row)
  have rowj: "row ! j = (if visited ! j then PInf else Fin (distance (coords ! current) (coords ! j)))"
    if "j < ?n" for j
    unfolding row_def using that Dc lv by (simp add: mask_row_nth)
  have ne: "row \<noteq> []" using lrow i by auto
  note am = argmin_spec [OF ne, folded nxt_def]
  show nn: "nxt < ?n" using am(1) lrow by simp
  obtain j0 where j0: "j0 < ?n" "j0 \<notin> set (take i t)"
    using some_unvisited [OF dt bt] i lt by auto
  have rj0: "row ! j0 = Fin (distance (coords ! current) (coords ! j0))"
    using rowj [OF j0(1)] vt j0 by simp
  have "\<not> ext_less (row ! j0) (row ! nxt)" using am(2) j0(1) lrow by simp
  then have fin: "row ! nxt \<noteq> PInf" unfolding rj0 by auto
  then have nv: "\<not> visited ! nxt" using rowj [OF nn] by auto
  then show nout: "nxt \<notin> set (take i t)" using vt nn by simp
  have rn: "row ! nxt = Fin (distance (coords ! current) (coords ! nxt))"
    using rowj [OF nn] nv by simp
  show "\<forall>j<?n. j \<notin> set (take i t) \<longrightarrow>
           distance (coords ! current) (coords ! nxt) \<le> distance (coords ! current) (coords ! j) \<and>
           (distance (coords ! current) (coords ! j) = distance (coords ! current) (coords ! nxt)
              \<longrightarrow> nxt \<le> j)"
  proof (intro allI impI)
    fix j assume j: "j < ?n" "j \<notin> set (take i t)"
    have rj: "row ! j = Fin (distance (coords ! current) (coords ! j))"
      using rowj [OF j(1)] vt j by simp
    have "\<not> ext_less (row ! j) (row ! nxt)" using am(2) j(1) lrow by simp
    then have le: "distance (coords ! current) (coords ! nxt)
                     \<le> distance (coords ! current) (coords ! j)"
      unfolding rj rn by simp
    have "nxt \<le> j"
      if eq: "distance (coords ! current) (coords ! j) = distance (coords ! current) (coords ! nxt)"
    proof (rule ccontr)
      assume "\<not> nxt \<le> j"
      then have "ext_less (row ! nxt) (row ! j)" using am(3) by simp
      then show False unfolding rj rn using eq by simp
    qed
    then show "distance (coords ! current) (coords ! nxt)
                 \<le> distance (coords ! current) (coords ! j) \<and>
           (distance (coords ! current) (coords ! j) = distance (coords ! current) (coords ! nxt)
              \<longrightarrow> nxt \<le> j)"
      using le by blast
  qed
  have tk: "take (Suc i) (t[i := nxt]) = take i t @ [nxt]"
    using i lt by (simp add: take_Suc_conv_app_nth)
  have tk': "take (Suc i - 1) (t[i := nxt]) = take i t" by simp
  have a: "(t[i := nxt]) ! (Suc i - 1) = nxt" using i lt by simp
  have b: "distinct (take (Suc i) (t[i := nxt]))" unfolding tk using dt nout by simp
  have c: "\<forall>x \<in> set (take (Suc i) (t[i := nxt])). x < ?n" unfolding tk using bt nn by simp
  have d: "\<forall>j<?n. (visited[nxt := True]) ! j \<longleftrightarrow> j \<in> set (take (Suc i) (t[i := nxt]))"
    unfolding tk using vt lv nn by (auto simp: nth_list_update)
  have e: "\<forall>r<?n. r \<notin> set (take (Suc i - 1) (t[i := nxt])) \<longrightarrow>
             (D[current := row]) ! r = cdist coords coords ! r"
  proof (intro allI impI)
    fix r assume r: "r < ?n" "r \<notin> set (take (Suc i - 1) (t[i := nxt]))"
    then have r': "r \<notin> set (take i t)" unfolding tk' by simp
    then have "r \<noteq> current" using cin by auto
    moreover have "r \<notin> set (take (i - 1) t)" using r' unfolding ti by simp
    ultimately show "(D[current := row]) ! r = cdist coords coords ! r"
      using rows r(1) by simp
  qed
  show "nn_inv coords (Suc i) (D[current := row]) (visited[nxt := True]) (t[i := nxt]) nxt"
    unfolding nn_inv_def using lD lv lt i nn a b c d e by simp
qed


lemma nn_loop_correct:
  assumes "nn_inv coords i D visited t current"
  shows "length (nn_loop [i..<length coords] D visited t current) = length coords \<and>
         take i (nn_loop [i..<length coords] D visited t current) = take i t \<and>
         distinct (nn_loop [i..<length coords] D visited t current) \<and>
         (\<forall>x \<in> set (nn_loop [i..<length coords] D visited t current). x < length coords) \<and>
         (\<forall>m. i \<le> m \<and> m < length coords \<longrightarrow>
              nearest_unvisited coords (nn_loop [i..<length coords] D visited t current) m)"
  using assms
proof (induction "length coords - i" arbitrary: i D visited t current)
  case 0
  have lt: "length t = length coords" and il: "i \<le> length coords"
    and dt: "distinct (take i t)" and bt: "\<forall>x \<in> set (take i t). x < length coords"
    using "0.prems" unfolding nn_inv_def by blast+
  have i: "i = length coords" using "0.hyps" il by simp
  have tt: "take i t = t" using i lt by simp
  have "nn_loop [i..<length coords] D visited t current = t" using i by simp
  then show ?case using lt dt bt i unfolding tt by auto
next
  case (Suc k)
  let ?n = "length coords"
  let ?row = "mask_row (D ! current) visited"
  let ?nxt = "argmin ?row"
  let ?R = "nn_loop [Suc i..<?n] (D[current := ?row]) (visited[?nxt := True]) (t[i := ?nxt]) ?nxt"
  have i: "i < ?n" using Suc.hyps(2) by simp
  have lD: "length D = ?n" and lt: "length t = ?n" and i1: "1 \<le> i"
    and cn: "current < ?n" and tc: "t ! (i - 1) = current"
    using Suc.prems unfolding nn_inv_def by blast+
  note st = nn_inv_step [OF Suc.prems i]
  have k: "k = ?n - Suc i" using Suc.hyps(2) by simp
  note ih = Suc.hyps(1) [OF k st(1)]
  have u: "[i..<?n] = i # [Suc i..<?n]" using i by (simp add: upt_conv_Cons)
  have Dr: "(D[current := ?row]) ! current = ?row" using cn lD by simp
  have R: "nn_loop [i..<?n] D visited t current = ?R"
    unfolding u by (simp add: Let_def Dr)
  have lR: "length ?R = ?n" and dR: "distinct ?R" and bR: "\<forall>x \<in> set ?R. x < ?n"
    and tR: "take (Suc i) ?R = take (Suc i) (t[i := ?nxt])"
    and later: "\<forall>m. Suc i \<le> m \<and> m < ?n \<longrightarrow> nearest_unvisited coords ?R m"
    using ih by blast+
  have tk: "take (Suc i) (t[i := ?nxt]) = take i t @ [?nxt]"
    using i lt by (simp add: take_Suc_conv_app_nth)
  have li: "length (take i t) = i" using i lt by simp
  have "take i ?R = take i (take (Suc i) ?R)" by simp
  also have "\<dots> = take i (take i t @ [?nxt])" unfolding tR tk ..
  also have "\<dots> = take i t" using li by simp
  finally have tiR: "take i ?R = take i t" .
  have "?R ! i = take (Suc i) ?R ! i" by simp
  also have "\<dots> = (take i t @ [?nxt]) ! i" unfolding tR tk ..
  also have "\<dots> = ?nxt" using li by (simp add: nth_append)
  finally have Ri: "?R ! i = ?nxt" .
  have "?R ! (i - 1) = take i ?R ! (i - 1)" using i1 by simp
  also have "\<dots> = take i t ! (i - 1)" unfolding tiR ..
  also have "\<dots> = current" using i1 tc by simp
  finally have Rp: "?R ! (i - 1) = current" .
  have near: "nearest_unvisited coords ?R i"
    unfolding nearest_unvisited_def Ri Rp tiR using st(2,3,4) by simp
  have "nearest_unvisited coords ?R m" if "i \<le> m" "m < ?n" for m
  proof (cases "m = i")
    case True
    then show ?thesis using near by simp
  next
    case False
    then show ?thesis using later that by simp
  qed
  then show ?case unfolding R using lR tiR dR bR by blast
qed

lemma nn_tsp_order_correct:
  assumes "py_index (length coords) start_idx = Some c"
  shows "\<exists>order. nn_tsp_order coords start_idx = Inr order \<and>
           length order = length coords \<and> distinct order \<and>
           set order = {0..<length coords} \<and> order ! 0 = c \<and>
           (\<forall>m. 1 \<le> m \<and> m < length coords \<longrightarrow> nearest_unvisited coords order m)"
proof -
  let ?n = "length coords"
  let ?v = "(replicate ?n False)[c := True]"
  let ?t = "(replicate ?n 0)[0 := c]"
  let ?R = "nn_loop [1..<?n] (cdist coords coords) ?v ?t c"
  have c: "c < ?n" using assms by (auto simp: py_index_def split: if_splits)
  have t1: "take 1 ?t = [c]" using c by (cases coords) simp_all
  have v: "\<forall>j<?n. ?v ! j \<longleftrightarrow> j \<in> set (take 1 ?t)"
    unfolding t1 using c by (auto simp: nth_list_update)
  have t0: "?t ! (1 - 1) = c" using c by (cases coords) simp_all
  have "nn_inv coords 1 (cdist coords coords) ?v ?t c"
    unfolding nn_inv_def using c v t0 by (simp add: cdist_def t1 [unfolded One_nat_def])
  from nn_loop_correct [OF this]
  have lR: "length ?R = ?n" and tR: "take 1 ?R = take 1 ?t" and dR: "distinct ?R"
    and bR: "\<forall>x \<in> set ?R. x < ?n"
    and nR: "\<forall>m. 1 \<le> m \<and> m < ?n \<longrightarrow> nearest_unvisited coords ?R m"
    by blast+
  have "set ?R \<subseteq> {0..<?n}" using bR by auto
  moreover have "card (set ?R) = card {0..<?n}" using dR lR by (simp add: distinct_card)
  ultimately have sR: "set ?R = {0..<?n}" by (simp add: card_subset_eq)
  have "?R ! 0 = take 1 ?R ! 0" by simp
  also have "\<dots> = c" unfolding tR t1 by simp
  finally have R0: "?R ! 0 = c" .
  have "nn_tsp_order coords start_idx = Inr ?R"
    unfolding nn_tsp_order_def using assms by (simp add: Let_def)
  then show ?thesis using lR dR sR R0 nR by blast
qed


lemma py_index_in_range:
  "0 \<le> i \<Longrightarrow> i < int n \<Longrightarrow> py_index n i = Some (nat i)"
  by (simp add: py_index_def)

lemma mset_map_permutation:
  assumes "distinct order" "set order = {0..<length xs}"
  shows "mset (map (\<lambda>i. xs ! i) order) = mset xs"
proof -
  have "mset order = mset [0..<length xs]"
    using assms set_eq_iff_mset_eq_distinct [of order "[0..<length xs]"] by simp
  then have "mset (map (\<lambda>i. xs ! i) order) = mset (map (\<lambda>i. xs ! i) [0..<length xs])"
    by (metis mset_map)
  then show ?thesis by (simp add: map_nth)
qed

lemma order_four_points:
  "nn_tsp_order [(0, 0), (3, 0), (1, 0), (- 1, 0)] 0 = Inr [0, 2, 1, 3]"
  by (simp add: nn_tsp_order_def py_index_def cdist_def mask_row_def argmin_def distance_def
      upt_rec eval_nat_numeral)

text \<open>
  C3. For a non-empty coordinate array and a start index \<open>0 \<le> start_idx < k\<close> the Planner
  returns a tour that is the input reordered by a visiting order in which every index
  \<open>0, ..., k - 1\<close> occurs exactly once: the tour has the multiset and the length of the
  input, and its first entry is the coordinate at the start index.
\<close>

theorem tour_is_permutation:
  assumes "coords \<noteq> []" "0 \<le> start_idx" "start_idx < int (length coords)"
  shows "\<exists>order t. nn_tsp_order coords start_idx = Inr order \<and>
           nn_tsp_matrix coords start_idx = Inr t \<and> t = map (\<lambda>i. coords ! i) order \<and>
           distinct order \<and> set order = {0..<length coords} \<and>
           mset t = mset coords \<and> length t = length coords \<and>
           t ! 0 = coords ! nat start_idx"
proof -
  from nn_tsp_order_correct [OF py_index_in_range [OF assms(2,3)]]
  obtain order where o: "nn_tsp_order coords start_idx = Inr order"
    "length order = length coords" "distinct order" "set order = {0..<length coords}"
    "order ! 0 = nat start_idx"
    by blast
  let ?t = "map (\<lambda>i. coords ! i) order"
  have 1: "nn_tsp_matrix coords start_idx = Inr ?t"
    by (simp add: nn_tsp_matrix_def o(1))
  have 2: "mset ?t = mset coords" by (rule mset_map_permutation [OF o(3,4)])
  have 3: "length ?t = length coords" using o(2) by simp
  have "0 < length order" using o(2) assms(1) by simp
  then have 4: "?t ! 0 = coords ! nat start_idx" using o(5) by simp
  show ?thesis using o(1,3,4) 1 2 3 4 by blast
qed

theorem tour_is_permutation_witness:
  "nn_tsp_matrix [(0, 0), (3, 0), (1, 0), (- 1, 0)] 0 = Inr [(0, 0), (1, 0), (3, 0), (- 1, 0)] \<and>
   mset [(0, 0), (1, 0), (3, 0), (- 1 :: real, 0 :: real)] = mset [(0, 0), (3, 0), (1, 0), (- 1, 0)]"
  using tour_is_permutation [of "[(0, 0), (3, 0), (1, 0), (- 1, 0)]" 0] order_four_points
  by (auto simp: nn_tsp_matrix_def)




subsection \<open>From the Sampler to the Planner\<close>

text \<open>
  C6 (as amended). Whenever the Sampler returns at least one coordinate, its start index is
  a position of the coordinate array, \<open>|x| + |y|\<close> of the coordinate there is at least that
  of every coordinate produced, and this index is the one handed to the Planner: the
  Planner runs on the coordinate array and this index, its tour begins with that
  coordinate, and the tour and its length are the result of \<^verbatim>\<open>compressedSensing\<close>.
\<close>

theorem start_is_farthest:
  assumes "sample_sites a p draw = Inr (coords, s)"
    and "choice_outcome (flat_input (flatten a))
           (nat \<lceil>fl (p * real (length (flatten a)))\<rceil>) draw"
    and "coords \<noteq> []"
  shows "s < length coords \<and>
         (\<forall>j<length coords. l1_norm (coords ! j) \<le> l1_norm (coords ! s)) \<and>
         (\<exists>path. nn_tsp_matrix coords (int s) = Inr path \<and> path ! 0 = coords ! s \<and>
                 compressedSensing a p drift draw = Inr (path, tour_length path))"
proof -
  note d = sample_sites_InrD [OF assms(1)]
  let ?n = "shape a ! 0"
  let ?f = "coord_of ?n (2 / (real ?n - 1))"
  let ?pts = "map real draw"
  have r: "coords = map ?f ?pts"
    "snd (coord_loop ?n (2 / (real ?n - 1)) ?pts 0 0 0 (replicate (length draw) (0, 0))) = s"
    using sample_sites_drawn [OF d(1,2,5,3,4,6) assms(2)] assms(1) by simp_all
  have len: "length coords = length ?pts" using r(1) by simp
  have nth: "coords ! j = ?f (?pts ! j)" if "j < length ?pts" for j
    using that r(1) by simp
  have ne: "0 < length ?pts" using assms(3) len by (cases draw) auto
  from coord_loop_start [OF r(2)]
  consider (zero) "s = 0" "\<forall>j<length ?pts. l1_norm (?f (?pts ! j)) \<le> 0"
    | (found) "s < length ?pts"
        "\<forall>j<length ?pts. l1_norm (?f (?pts ! j)) \<le> l1_norm (?f (?pts ! s))"
    by auto
  then have "s < length ?pts \<and>
      (\<forall>j<length ?pts. l1_norm (?f (?pts ! j)) \<le> l1_norm (?f (?pts ! s)))"
  proof cases
    case zero
    have "0 \<le> l1_norm (?f (?pts ! s))" by (simp add: l1_norm_def)
    then show ?thesis using zero ne by fastforce
  next
    case found
    then show ?thesis by simp
  qed
  then have far: "s < length coords"
    "\<forall>j<length coords. l1_norm (coords ! j) \<le> l1_norm (coords ! s)"
    using nth len by auto
  have "py_index (length coords) (int s) = Some s"
    using far(1) by (simp add: py_index_def)
  from nn_tsp_order_correct [OF this]
  obtain order where o: "nn_tsp_order coords (int s) = Inr order"
    "length order = length coords" "order ! 0 = s"
    by blast
  let ?path = "map (\<lambda>i. coords ! i) order"
  have 1: "nn_tsp_matrix coords (int s) = Inr ?path"
    by (simp add: nn_tsp_matrix_def o(1))
  have "0 < length order" using o(2) assms(3) by simp
  then have 2: "?path ! 0 = coords ! s" using o(3) by simp
  have 3: "compressedSensing a p drift draw = Inr (?path, tour_length ?path)"
    unfolding compressedSensing_def assms(1) using far(1) by (simp add: 1)
  show ?thesis using far 1 2 3 by blast
qed

theorem start_is_farthest_witness:
  "sample_sites \<lparr>shape = [3, 3], flatten = [1, 1, 1, 1, 1, 1, 1, 1, 1]\<rparr> (1/3) [4, 0, 8]
     = Inr ([(0, 0), (1, - 1), (- 1, 1)], 1) \<and>
   l1_norm ([(0, 0), (1, - 1), (- 1, 1)] ! 0) \<le> l1_norm ([(0, 0), (1, - 1), (- 1, 1)] ! 1) \<and>
   l1_norm ([(0, 0), (1, - 1), (- 1, 1)] ! 2) \<le> l1_norm ([(0, 0), (1, - 1), (- 1, 1)] ! 1) \<and>
   (\<exists>path. compressedSensing \<lparr>shape = [3, 3], flatten = [1, 1, 1, 1, 1, 1, 1, 1, 1]\<rparr> (1/3) 0
              [4, 0, 8] = Inr (path, tour_length path) \<and>
           path ! 0 = (1, - 1))"
proof -
  have ne: "[(0, 0), (1, - 1), (- 1, 1)] \<noteq> ([] :: coord list)" by simp
  from start_is_farthest [OF sample_three_by_three outcome_three_by_three ne, of 0]
  obtain path where
    "compressedSensing \<lparr>shape = [3, 3], flatten = [1, 1, 1, 1, 1, 1, 1, 1, 1]\<rparr> (1/3) 0
       [4, 0, 8] = Inr (path, tour_length path)"
    "path ! 0 = [(0, 0), (1, - 1), (- 1, 1)] ! 1"
    by blast
  then show ?thesis
    using sample_three_by_three by (auto simp: l1_norm_def)
qed

text \<open>
  C6 as stated fails on the outcome that draws no site: with \<open>p = 0\<close> the Sampler returns
  the empty coordinate array and the start index 0, which is the position of no coordinate.
\<close>

theorem start_index_without_site_counterexample:
  "choice_outcome (flat_input [1, 1, 1, 1, 1, 1, 1, 1, 1]) 0 [] \<and>
   sample_sites \<lparr>shape = [3, 3], flatten = [1, 1, 1, 1, 1, 1, 1, 1, 1]\<rparr> 0 [] = Inr ([], 0) \<and>
   \<not> 0 < length ([] :: coord list)"
proof -
  have "random_choice (flat_input [1, 1, 1, 1, 1, 1, 1, 1, 1]) 0 [] = Inr []"
    by (rule random_choice_succeeds) (use dbl_overflow_large dbl_underflow_small in simp_all)
  then have "sample_sites \<lparr>shape = [3, 3], flatten = [1, 1, 1, 1, 1, 1, 1, 1, 1]\<rparr> 0 []
               = Inr ([], 0)"
    by (simp add: sample_sites_def fl_zero Let_def)
  then show ?thesis by (simp add: choice_outcome_def flat_input_ones_9)
qed

text \<open>
  C4. The code has no check for an empty coordinate set. On the 2 by 2 map of ones with
  \<open>p = 0\<close>, a ratio the validation accepts, the Sampler returns no coordinate and
  \<^verbatim>\<open>compressedSensing\<close> stops at line 384, \<^verbatim>\<open>start_coord = coord_arr[start_n]\<close>, with an
  IndexError; \<^verbatim>\<open>start_coord\<close> is used nowhere.
\<close>

theorem no_site_drawn_index_error:
  "sample_sites \<lparr>shape = [2, 2], flatten = [1, 1, 1, 1]\<rparr> 0 [] = Inr ([], 0) \<and>
   compressedSensing \<lparr>shape = [2, 2], flatten = [1, 1, 1, 1]\<rparr> 0 0 [] = Inl IndexError"
proof -
  have "random_choice (flat_input [1, 1, 1, 1]) 0 [] = Inr []"
    by (rule random_choice_succeeds) (use dbl_overflow_large dbl_underflow_small in simp_all)
  then have s: "sample_sites \<lparr>shape = [2, 2], flatten = [1, 1, 1, 1]\<rparr> 0 [] = Inr ([], 0)"
    by (simp add: sample_sites_def fl_zero Let_def)
  then show ?thesis by (simp add: compressedSensing_def)
qed

text \<open>
  C1. The reported length counts the closing edge. On the 2 by 2 map of ones with
  \<open>p = 1/2\<close> and the sites 0 and 1 drawn, the path returned is (1, -1), (1, 1), whose
  length as an open path is the distance 2 of its two points, and the length returned
  with it is 4.
\<close>

theorem reported_length_counts_closing_edge:
  "compressedSensing \<lparr>shape = [2, 2], flatten = [1, 1, 1, 1]\<rparr> (1/2) 0 [0, 1]
     = Inr ([(1, - 1), (1, 1)], 4) \<and>
   distance (1, - 1) (1, 1) = 2 \<and> open_path_length [(1, - 1), (1, 1)] = 2"
proof -
  have s4: "sqrt 4 = 2" using real_sqrt_abs [of 2] by simp
  have "sample_sites \<lparr>shape = [2, 2], flatten = [1, 1, 1, 1]\<rparr> (1/2) [0, 1]
      = Inr (coord_loop 2 2 [0, 1] 0 0 0 (replicate 2 (0, 0)))"
    by (simp add: sample_sites_def fl_2 accepted_ones_4 choice_1D_arr_def Let_def upt_rec)
  also have "coord_loop 2 2 [0, 1] 0 0 0 (replicate 2 (0, 0)) = ([(1, - 1), (1, 1)], 0)"
    by (simp add: py_mod_def Let_def eval_nat_numeral)
  finally have s: "sample_sites \<lparr>shape = [2, 2], flatten = [1, 1, 1, 1]\<rparr> (1/2) [0, 1]
      = Inr ([(1, - 1), (1, 1)], 0)" .
  have t: "nn_tsp_matrix [(1, - 1), (1, 1)] 0 = Inr [(1, - 1), (1, 1)]"
    by (simp add: nn_tsp_matrix_def nn_tsp_order_def py_index_def cdist_def mask_row_def
        argmin_def distance_def)
  have d: "distance (1, - 1) (1, 1) = 2" "distance (1, 1) (1, - 1) = 2"
    by (simp_all add: distance_def s4)
  have l: "tour_length [(1, - 1), (1, 1)] = 4"
    by (simp add: tour_length_def py_nth_def d upt_rec)
  have o: "open_path_length [(1, - 1), (1, 1)] = 2" by (simp add: d)
  show ?thesis
    unfolding compressedSensing_def s using t l d o by simp
qed


end
